theory Spec2Isabelle
  imports Complex_Main
begin

section \<open>Data model\<close>

text \<open>
  The repository holds several rewrites of one React component, \<open>ArtworkTable\<close>.  Two of
  them are modelled: the last one of \<^verbatim>\<open>src/ArtworkTable.tsx\<close> (PrimeReact table, the
  selection kept as a \<open>Set\<close> of identifiers, bulk selection in batches of parallel
  requests) and the one with hand-written checkboxes and paginator (selection kept as an
  array of \<open>Artwork\<close> objects, bulk selection page after page).

  JavaScript numbers that only ever hold integers (identifiers, offsets, counts, page
  numbers) are \<open>int\<close>.
\<close>

record Artwork =
  id_field :: int
  api_link :: string
  title :: string
  artwork_type_title :: string

text \<open>The argument of \<open>onPageChange\<close> (\<open>interface PaginatorPageState\<close>).\<close>

record PaginatorPageState =
  ev_first :: int
  ev_rows :: int
  ev_page :: int
  ev_pageCount :: int

text \<open>
  A JavaScript \<open>Set\<close> iterates in insertion order and ignores the insertion of a member:
  it is a list without repetition, \<open>add\<close> appending at the end.
\<close>

type_synonym 'a jsset = "'a list"

definition jsset_add :: "'a \<Rightarrow> 'a jsset \<Rightarrow> 'a jsset" where
  "jsset_add x xs = (if x \<in> set xs then xs else xs @ [x])"

definition jsset_of :: "'a list \<Rightarrow> 'a jsset" where
  \<comment> \<open>\<open>new Set(iterable)\<close>\<close>
  "jsset_of xs = fold jsset_add xs []"

definition jsset_has :: "'a jsset \<Rightarrow> 'a \<Rightarrow> bool" where
  "jsset_has xs x = (x \<in> set xs)"

text \<open>
  The \<open>useState\<close> cells of the component.  The cells that both modelled versions have
  come first; each version extends them with its own.
\<close>

record base_state =
  artworks :: "Artwork list"
  loading :: bool
  totalRecords :: int
  first :: int
  tempRows :: "int option"

record table_state = base_state +
  selectedIds :: "int jsset"
  bulkSelectLoading :: bool
  overlayVisible :: bool

record custom_state = base_state +
  selectedArtworks :: "Artwork list"
  showOverlay :: bool

definition API_PAGE_SIZE :: int where
  "API_PAGE_SIZE = 12"

definition CONCURRENT_REQUESTS :: nat where
  "CONCURRENT_REQUESTS = 3"

definition ceil_div :: "int \<Rightarrow> int \<Rightarrow> int" where
  \<comment> \<open>\<open>Math.ceil(a / b)\<close> on integers\<close>
  "ceil_div a b = - ((- a) div b)"

datatype error = NetworkError | ParseError

section \<open>Pagination\<close>

definition onPageChange :: "PaginatorPageState \<Rightarrow> 'a base_state_scheme \<Rightarrow> 'a base_state_scheme" where
  "onPageChange event s = s\<lparr>first := ev_first event\<rparr>"

text \<open>
  The hand-written paginator: \<open>currentPage = Math.floor(first / API_PAGE_SIZE)\<close>,
  \<open>pageCount = Math.ceil(totalRecords / API_PAGE_SIZE)\<close>, a Previous button disabled on
  page 0, a Next button disabled on the last page, and one button for each
  \<open>i\<close> of \<open>Array.from({ length: pageCount })\<close>.
\<close>

definition currentPage :: "'a base_state_scheme \<Rightarrow> int" where
  "currentPage s = first s div API_PAGE_SIZE"

definition pageCount :: "'a base_state_scheme \<Rightarrow> int" where
  "pageCount s = ceil_div (totalRecords s) API_PAGE_SIZE"

datatype paginator_button = Previous | Next | PageNumber nat

fun button_enabled :: "'a base_state_scheme \<Rightarrow> paginator_button \<Rightarrow> bool" where
  "button_enabled s Previous = (\<not> currentPage s = 0)"
| "button_enabled s Next = (\<not> currentPage s \<ge> pageCount s - 1)"
| "button_enabled s (PageNumber i) = (int i < pageCount s)"

fun button_click :: "paginator_button \<Rightarrow> 'a base_state_scheme \<Rightarrow> 'a base_state_scheme" where
  "button_click Previous s =
     onPageChange \<lparr>ev_first = first s - API_PAGE_SIZE, ev_rows = API_PAGE_SIZE,
                   ev_page = currentPage s - 1, ev_pageCount = pageCount s\<rparr> s"
| "button_click Next s =
     onPageChange \<lparr>ev_first = first s + API_PAGE_SIZE, ev_rows = API_PAGE_SIZE,
                   ev_page = currentPage s + 1, ev_pageCount = pageCount s\<rparr> s"
| "button_click (PageNumber i) s =
     onPageChange \<lparr>ev_first = int i * API_PAGE_SIZE, ev_rows = API_PAGE_SIZE,
                   ev_page = int i, ev_pageCount = pageCount s\<rparr> s"

definition offset_in_range :: "'a base_state_scheme \<Rightarrow> int \<Rightarrow> bool" where
  \<comment> \<open>the range \<open>[0, max(0, pageCount-1) * pageSize]\<close> of the specification\<close>
  "offset_in_range s off = (0 \<le> off \<and> off \<le> max 0 (pageCount s - 1) * API_PAGE_SIZE)"

section \<open>Selection: single rows and the current page\<close>

definition handleCheckboxChange :: "Artwork \<Rightarrow> bool \<Rightarrow> custom_state \<Rightarrow> custom_state" where
  "handleCheckboxChange artwork isChecked s =
     s\<lparr>selectedArtworks :=
         (let prevSelected = selectedArtworks s in
          if isChecked then
            (if \<not> list_ex (\<lambda>item. id_field item = id_field artwork) prevSelected
             then prevSelected @ [artwork]
             else prevSelected)
          else filter (\<lambda>item. id_field item \<noteq> id_field artwork) prevSelected)\<rparr>"

definition selectedArtworkIds :: "custom_state \<Rightarrow> int jsset" where
  \<comment> \<open>\<open>new Set(selectedArtworks.map(a => a.id))\<close>\<close>
  "selectedArtworkIds s = jsset_of (map id_field (selectedArtworks s))"

definition selectAllCurrentPage :: "table_state \<Rightarrow> table_state" where
  "selectAllCurrentPage s =
     (let currentPageIds = jsset_of (map id_field (artworks s));
          updatedSelectedIds = jsset_of (selectedIds s @ currentPageIds)
      in s\<lparr>selectedIds := updatedSelectedIds\<rparr>)"

definition deselectAllCurrentPage :: "table_state \<Rightarrow> table_state" where
  "deselectAllCurrentPage s =
     (let currentPageIds = jsset_of (map id_field (artworks s));
          updatedSelectedIds = jsset_of (filter (\<lambda>i. \<not> jsset_has currentPageIds i) (selectedIds s))
      in s\<lparr>selectedIds := updatedSelectedIds\<rparr>)"

section \<open>Fetching pages\<close>

text \<open>
  A page request \<open>fetch(...?page=n).then(response => response.json())\<close> either rejects
  (the transport fails, or the body is not JSON) or yields the page's \<open>data\<close> array.
  The bulk selection of the table reads only \<open>item.id\<close>, so there a page is the list of
  its identifiers; the hand-written version maps every item to an \<open>Artwork\<close>.
  \<open>latency\<close> gives the moment each page's response arrives.
\<close>

type_synonym 'a fetcher = "int \<Rightarrow> error + 'a list"

text \<open>
  \<open>Promise.all\<close>: as each promise fulfils, its value is stored at the promise's own index;
  the first rejection to arrive rejects the whole; when every promise has fulfilled, the
  array of values is the result.  \<open>settle\<close> runs through the indices in order of arrival.
\<close>

fun settle :: "(nat \<Rightarrow> error + 'a) \<Rightarrow> nat list \<Rightarrow> 'a option list \<Rightarrow> error + 'a list" where
  "settle outcome [] slots = Inr (map the slots)"
| "settle outcome (index # later) slots =
     (case outcome index of
        Inl e \<Rightarrow> Inl e
      | Inr x \<Rightarrow> settle outcome later (slots[index := Some x]))"

definition promise_all :: "('k \<Rightarrow> nat) \<Rightarrow> 'k list \<Rightarrow> ('k \<Rightarrow> error + 'a) \<Rightarrow> error + 'a list" where
  "promise_all latency ps task =
     settle (\<lambda>i. task (ps ! i))
       (sort_key (\<lambda>i. latency (ps ! i)) [0..<length ps])
       (replicate (length ps) None)"

definition slice :: "nat \<Rightarrow> nat \<Rightarrow> 'a list \<Rightarrow> 'a list" where
  \<comment> \<open>\<open>xs.slice(i, j)\<close> for \<open>0 \<le> i \<le> j\<close>\<close>
  "slice i j xs = take (j - i) (drop i xs)"

section \<open>Bulk selection in batches of parallel requests\<close>

text \<open>The innermost loop, over the items of one page.\<close>

fun add_items :: "int \<Rightarrow> int list \<Rightarrow> int jsset \<times> int \<Rightarrow> int jsset \<times> int" where
  "add_items totalToSelect [] (newSelectedIds, selectedCount) = (newSelectedIds, selectedCount)"
| "add_items totalToSelect (item # items) (newSelectedIds, selectedCount) =
     (if selectedCount \<ge> totalToSelect then (newSelectedIds, selectedCount)
      else add_items totalToSelect items (jsset_add item newSelectedIds, selectedCount + 1))"

text \<open>The loop over the results of one batch.\<close>

fun add_pages :: "int \<Rightarrow> int list list \<Rightarrow> int jsset \<times> int \<Rightarrow> int jsset \<times> int" where
  "add_pages totalToSelect [] (newSelectedIds, selectedCount) = (newSelectedIds, selectedCount)"
| "add_pages totalToSelect (data # batchResults) (newSelectedIds, selectedCount) =
     (if selectedCount \<ge> totalToSelect then (newSelectedIds, selectedCount)
      else add_pages totalToSelect batchResults
             (add_items totalToSelect data (newSelectedIds, selectedCount)))"

text \<open>The loop over the batches; a rejected \<open>Promise.all\<close> leaves it with the error.\<close>

function batch_loop ::
  "(int \<Rightarrow> nat) \<Rightarrow> int fetcher \<Rightarrow> int \<Rightarrow> int list \<Rightarrow> nat \<Rightarrow> int jsset \<times> int
     \<Rightarrow> error + int jsset \<times> int" where
  "batch_loop latency fetch totalToSelect pageNumbers i (newSelectedIds, selectedCount) =
     (if i < length pageNumbers then
        (if selectedCount \<ge> totalToSelect then Inr (newSelectedIds, selectedCount)
         else
           (case promise_all latency (slice i (i + CONCURRENT_REQUESTS) pageNumbers) fetch of
              Inl e \<Rightarrow> Inl e
            | Inr batchResults \<Rightarrow>
                batch_loop latency fetch totalToSelect pageNumbers (i + CONCURRENT_REQUESTS)
                  (add_pages totalToSelect batchResults (newSelectedIds, selectedCount))))
      else Inr (newSelectedIds, selectedCount))"
  by pat_completeness auto
termination
  by (relation "measure (\<lambda>(latency, fetch, totalToSelect, pageNumbers, i, acc). length pageNumbers - i)")
     (auto simp: CONCURRENT_REQUESTS_def)

definition page_numbers :: "int \<Rightarrow> int \<Rightarrow> int list" where
  "page_numbers totalToSelect records =
     (let maxPages = ceil_div totalToSelect API_PAGE_SIZE;
          pagesToFetch = min maxPages (ceil_div records API_PAGE_SIZE)
      in map (\<lambda>i. int i + 1) [0..<nat pagesToFetch])"

text \<open>The body of the \<open>try\<close> block, up to the value handed to \<open>setSelectedIds\<close>.\<close>

definition bulk_fetch_ids :: "(int \<Rightarrow> nat) \<Rightarrow> int fetcher \<Rightarrow> int \<Rightarrow> int \<Rightarrow> error + int jsset" where
  "bulk_fetch_ids latency fetch totalToSelect records =
     (case batch_loop latency fetch totalToSelect (page_numbers totalToSelect records) 0 ([], 0) of
        Inl e \<Rightarrow> Inl e
      | Inr (newSelectedIds, selectedCount) \<Rightarrow> Inr newSelectedIds)"

text \<open>
  \<open>applyRowsPerPageAndSelect\<close> of the table.  \<open>tempRows || 0\<close> is 0 for \<open>null\<close>; the
  \<open>catch\<close> clause only writes to the console, the \<open>finally\<close> clause clears the busy flag,
  and what follows the \<open>try\<close> statement runs on both paths.
\<close>

definition applyRowsPerPageAndSelect ::
  "(int \<Rightarrow> nat) \<Rightarrow> int fetcher \<Rightarrow> table_state \<Rightarrow> table_state" where
  "applyRowsPerPageAndSelect latency fetch s =
     (let totalToSelect = (case tempRows s of None \<Rightarrow> 0 | Some n \<Rightarrow> n) in
      if totalToSelect \<le> 0 then s\<lparr>selectedIds := [], overlayVisible := False\<rparr>
      else
        let s1 = s\<lparr>bulkSelectLoading := True\<rparr>;
            s2 = (case bulk_fetch_ids latency fetch totalToSelect (totalRecords s) of
                    Inr newSelectedIds \<Rightarrow> s1\<lparr>selectedIds := newSelectedIds\<rparr>
                  | Inl e \<Rightarrow> s1);
            s3 = s2\<lparr>bulkSelectLoading := False\<rparr>
        in s3\<lparr>first := 0, overlayVisible := False\<rparr>)"

section \<open>The handlers of the table, event by event\<close>

text \<open>
  The remaining handlers of the table.  \<open>fetchData\<close> is cut at its \<open>await\<close>: what runs
  when it is called, and what runs when the response (the mapped rows and
  \<open>data.pagination.total\<close>) or the failure is in.
\<close>

definition fetchData_start :: "table_state \<Rightarrow> table_state" where
  "fetchData_start s = s\<lparr>loading := True\<rparr>"

definition fetchData_done :: "error + Artwork list \<times> int \<Rightarrow> table_state \<Rightarrow> table_state" where
  "fetchData_done response s =
     (let s1 = (case response of
                  Inr (mappedData, records) \<Rightarrow> s\<lparr>artworks := mappedData, totalRecords := records\<rparr>
                | Inl e \<Rightarrow> s)
      in s1\<lparr>loading := False\<rparr>)"

definition onDataTableSelectionChange :: "Artwork list \<Rightarrow> table_state \<Rightarrow> table_state" where
  "onDataTableSelectionChange selected s =
     (let currentPageArtworkIds = jsset_of (map id_field (artworks s));
          updatedSelectedIds =
            jsset_of (filter (\<lambda>i. \<not> jsset_has currentPageArtworkIds i) (selectedIds s))
      in s\<lparr>selectedIds := fold (\<lambda>artwork ids. jsset_add (id_field artwork) ids) selected
                               updatedSelectedIds\<rparr>)"

definition onValueChange :: "int option \<Rightarrow> table_state \<Rightarrow> table_state" where
  \<comment> \<open>\<open>setTempRows(e.value || null)\<close>\<close>
  "onValueChange v s =
     s\<lparr>tempRows := (case v of None \<Rightarrow> None | Some n \<Rightarrow> if n = 0 then None else Some n)\<rparr>"

definition toggleOverlay :: "table_state \<Rightarrow> table_state" where
  \<comment> \<open>\<open>op.current?.toggle(e)\<close> of the header button\<close>
  "toggleOverlay s = s\<lparr>overlayVisible := \<not> overlayVisible s\<rparr>"

definition clearAllSelections :: "table_state \<Rightarrow> table_state" where
  "clearAllSelections s = s\<lparr>selectedIds := []\<rparr>"

definition apply_button_disabled :: "table_state \<Rightarrow> bool" where
  \<comment> \<open>\<open>disabled={bulkSelectLoading || loading}\<close> of the Apply button\<close>
  "apply_button_disabled s = (bulkSelectLoading s \<or> loading s)"

text \<open>
  \<open>applyRowsPerPageAndSelect\<close> is called from one place, the \<open>onClick\<close> of the Apply
  button, and a disabled button passes no click on.  The function runs up to its first
  \<open>await\<close> within the click; the rest runs when the responses are in, with the values the
  closure read at the click.

  To speak about the order in which requests start, which the code does not record, a run
  carries three ghost values: the requests in flight, each with the number it started
  under; the count of requests started so far; and the number of the request that last
  called \<open>setSelectedIds\<close>.
\<close>

record bulk_request =
  req_totalToSelect :: int
  req_totalRecords :: int

record session =
  ui :: table_state
  in_flight :: "(nat \<times> bulk_request) list"
  issued :: nat
  last_writer :: "nat option"

definition bulk_finish ::
  "(int \<Rightarrow> nat) \<Rightarrow> int fetcher \<Rightarrow> bulk_request \<Rightarrow> table_state \<Rightarrow> table_state" where
  "bulk_finish latency fetch r s =
     (let s2 = (case bulk_fetch_ids latency fetch (req_totalToSelect r) (req_totalRecords r) of
                  Inr newSelectedIds \<Rightarrow> s\<lparr>selectedIds := newSelectedIds\<rparr>
                | Inl e \<Rightarrow> s);
          s3 = s2\<lparr>bulkSelectLoading := False\<rparr>
      in s3\<lparr>first := 0, overlayVisible := False\<rparr>)"

definition apply_click :: "session \<Rightarrow> session" where
  "apply_click ss =
     (if apply_button_disabled (ui ss) then ss
      else
        let totalToSelect = (case tempRows (ui ss) of None \<Rightarrow> 0 | Some n \<Rightarrow> n) in
        if totalToSelect \<le> 0 then
          ss\<lparr>ui := (ui ss)\<lparr>selectedIds := [], overlayVisible := False\<rparr>,
             issued := Suc (issued ss), last_writer := Some (issued ss)\<rparr>
        else
          ss\<lparr>ui := (ui ss)\<lparr>bulkSelectLoading := True\<rparr>,
             in_flight := in_flight ss @
               [(issued ss, \<lparr>req_totalToSelect = totalToSelect,
                              req_totalRecords = totalRecords (ui ss)\<rparr>)],
             issued := Suc (issued ss)\<rparr>)"

definition bulk_done :: "nat \<Rightarrow> (int \<Rightarrow> nat) \<Rightarrow> int fetcher \<Rightarrow> session \<Rightarrow> session" where
  "bulk_done n latency fetch ss =
     (case map_of (in_flight ss) n of
        None \<Rightarrow> ss
      | Some r \<Rightarrow>
          ss\<lparr>ui := bulk_finish latency fetch r (ui ss),
             in_flight := filter (\<lambda>(m, q). m \<noteq> n) (in_flight ss),
             last_writer :=
               (if isl (bulk_fetch_ids latency fetch (req_totalToSelect r) (req_totalRecords r))
                then last_writer ss else Some n)\<rparr>)"

text \<open>
  What can happen to the table: a call of \<open>fetchData\<close> and its response, the paginator,
  the checkboxes of the rows, the header button, the input of the count, a click on
  Apply, the responses of a bulk selection with their arrival times, and the three
  buttons Select Page, Deselect Page and Clear All Selections.  The events are not tied to
  each other (a page change need not be followed by its \<open>fetchData\<close>), so the runs of the
  component are among the runs listed here.
\<close>

datatype event =
    FetchStart
  | FetchDone "error + Artwork list \<times> int"
  | PageChange PaginatorPageState
  | SelectionChange "Artwork list"
  | HeaderButton
  | RowsInput "int option"
  | ApplyClick
  | BulkDone nat "int \<Rightarrow> nat" "int fetcher"
  | SelectPage
  | DeselectPage
  | ClearAll

fun step :: "event \<Rightarrow> session \<Rightarrow> session" where
  "step FetchStart ss = ss\<lparr>ui := fetchData_start (ui ss)\<rparr>"
| "step (FetchDone response) ss = ss\<lparr>ui := fetchData_done response (ui ss)\<rparr>"
| "step (PageChange event) ss = ss\<lparr>ui := onPageChange event (ui ss)\<rparr>"
| "step (SelectionChange selected) ss = ss\<lparr>ui := onDataTableSelectionChange selected (ui ss)\<rparr>"
| "step HeaderButton ss = ss\<lparr>ui := toggleOverlay (ui ss)\<rparr>"
| "step (RowsInput v) ss = ss\<lparr>ui := onValueChange v (ui ss)\<rparr>"
| "step ApplyClick ss = apply_click ss"
| "step (BulkDone n latency fetch) ss = bulk_done n latency fetch ss"
| "step SelectPage ss = ss\<lparr>ui := selectAllCurrentPage (ui ss)\<rparr>"
| "step DeselectPage ss = ss\<lparr>ui := deselectAllCurrentPage (ui ss)\<rparr>"
| "step ClearAll ss = ss\<lparr>ui := clearAllSelections (ui ss)\<rparr>"

fun run :: "event list \<Rightarrow> session \<Rightarrow> session" where
  "run [] ss = ss"
| "run (e # es) ss = run es (step e ss)"

definition mounted :: session where
  \<comment> \<open>the initial values of the \<open>useState\<close> cells, nothing started\<close>
  "mounted =
     \<lparr>ui = \<lparr>artworks = [], loading = False, totalRecords = 0, first = 0, tempRows = None,
             selectedIds = [], bulkSelectLoading = False, overlayVisible = False\<rparr>,
      in_flight = [], issued = 0, last_writer = None\<rparr>"

definition consistent :: "session \<Rightarrow> bool" where
  "consistent ss =
     ((in_flight ss = [] \<or> bulkSelectLoading (ui ss)) \<and>
      length (in_flight ss) \<le> 1 \<and>
      list_all (\<lambda>(n, r). Suc n = issued ss) (in_flight ss) \<and>
      (case last_writer ss of
         None \<Rightarrow> True
       | Some m \<Rightarrow> m < issued ss \<and> list_all (\<lambda>(n, r). m < n) (in_flight ss)))"

section \<open>Bulk selection page after page\<close>

fun push_items :: "int \<Rightarrow> Artwork list \<Rightarrow> Artwork list \<times> int \<Rightarrow> Artwork list \<times> int" where
  "push_items totalToSelect [] (newSelectedItems, selectedCount) = (newSelectedItems, selectedCount)"
| "push_items totalToSelect (artwork # fetchedArtworks) (newSelectedItems, selectedCount) =
     (if selectedCount < totalToSelect
      then push_items totalToSelect fetchedArtworks (newSelectedItems @ [artwork], selectedCount + 1)
      else (newSelectedItems, selectedCount))"

function page_loop ::
  "Artwork fetcher \<Rightarrow> int \<Rightarrow> int \<Rightarrow> int \<Rightarrow> Artwork list \<times> int \<Rightarrow> error + Artwork list \<times> int" where
  "page_loop fetch totalToSelect maxPages pageNo (newSelectedItems, selectedCount) =
     (if selectedCount < totalToSelect \<and> pageNo \<le> maxPages then
        (case fetch pageNo of
           Inl e \<Rightarrow> Inl e
         | Inr fetchedArtworks \<Rightarrow>
             page_loop fetch totalToSelect maxPages (pageNo + 1)
               (push_items totalToSelect fetchedArtworks (newSelectedItems, selectedCount)))
      else Inr (newSelectedItems, selectedCount))"
  by pat_completeness auto
termination
  by (relation "measure (\<lambda>(fetch, totalToSelect, maxPages, pageNo, acc). nat (maxPages + 1 - pageNo))")
     auto

definition applyRowsPerPageAndSelect_seq :: "Artwork fetcher \<Rightarrow> custom_state \<Rightarrow> custom_state" where
  "applyRowsPerPageAndSelect_seq fetch s =
     (let totalToSelect = (case tempRows s of None \<Rightarrow> 0 | Some n \<Rightarrow> n) in
      if totalToSelect \<le> 0 then s\<lparr>selectedArtworks := [], showOverlay := False\<rparr>
      else
        let s1 = s\<lparr>loading := True\<rparr>;
            maxPages = ceil_div (totalRecords s) API_PAGE_SIZE;
            s2 = (case page_loop fetch totalToSelect maxPages 1 ([], 0) of
                    Inr (newSelectedItems, selectedCount) \<Rightarrow> s1\<lparr>selectedArtworks := newSelectedItems\<rparr>
                  | Inl e \<Rightarrow> s1);
            s3 = s2\<lparr>loading := False\<rparr>
        in s3\<lparr>first := 0, showOverlay := False\<rparr>)"

section \<open>The remote collection\<close>

text \<open>
  The collection behind the API, as a list of identifiers in its canonical order, and the
  page of it that a request for page \<open>p\<close> (counted from 1) returns.
\<close>

definition page_of :: "'a list \<Rightarrow> int \<Rightarrow> 'a list" where
  "page_of coll p = take (nat API_PAGE_SIZE) (drop (nat API_PAGE_SIZE * nat (p - 1)) coll)"

definition page_items :: "error + 'a list \<Rightarrow> 'a list" where
  \<comment> \<open>the items a settled request contributes: none when it failed\<close>
  "page_items r = (case r of Inl e \<Rightarrow> [] | Inr items \<Rightarrow> items)"

section \<open>Sample inputs\<close>

definition sample_artwork :: "int \<Rightarrow> string \<Rightarrow> Artwork" where
  "sample_artwork n code =
     \<lparr>id_field = n, api_link = code, title = ''Untitled'', artwork_type_title = ''N/A''\<rparr>"

definition sample_table :: table_state where
  "sample_table =
     \<lparr>artworks = [sample_artwork 101 ''101'', sample_artwork 102 ''102''], loading = False,
      totalRecords = 50, first = 24, tempRows = Some 40,
      selectedIds = [7, 101], bulkSelectLoading = False, overlayVisible = True\<rparr>"

definition sample_custom :: custom_state where
  "sample_custom =
     \<lparr>artworks = [sample_artwork 7 ''7'', sample_artwork 8 ''8''], loading = False,
      totalRecords = 50, first = 24, tempRows = Some 20,
      selectedArtworks = [sample_artwork 7 ''7'', sample_artwork 30 ''30''], showOverlay = True\<rparr>"

definition sample_collection :: "int list" where
  "sample_collection = [100..149]"

definition sample_fetch :: "int fetcher" where
  "sample_fetch p = Inr (page_of sample_collection p)"

definition failing_fetch :: "int fetcher" where
  "failing_fetch p = (if p = 4 then Inl NetworkError else sample_fetch p)"

definition sample_latency :: "int \<Rightarrow> nat" where
  \<comment> \<open>the later the page, the earlier its response\<close>
  "sample_latency p = nat (10 - p)"

definition sample_rows :: "Artwork list" where
  "sample_rows = map (\<lambda>n. sample_artwork n ''code'') (take 12 sample_collection)"

definition sample_events :: "event list" where
  \<comment> \<open>the first page loads; a bulk selection of one row is started; before its responses
      are in, the count is changed to two and Apply is clicked again\<close>
  "sample_events =
     [FetchStart, FetchDone (Inr (sample_rows, 50)), HeaderButton, RowsInput (Some 1), ApplyClick,
      RowsInput (Some 2), ApplyClick]"

section \<open>Facts about sets as insertion-ordered lists\<close>

lemma set_fold_jsset_add: "set (fold jsset_add xs acc) = set acc \<union> set xs"
  by (induction xs arbitrary: acc) (auto simp: jsset_add_def)

lemma set_jsset_of: "set (jsset_of xs) = set xs"
  by (simp add: jsset_of_def set_fold_jsset_add)

lemma distinct_fold_jsset_add: "distinct acc \<Longrightarrow> distinct (fold jsset_add xs acc)"
  by (induction xs arbitrary: acc) (auto simp: jsset_add_def)

lemma distinct_jsset_of: "distinct (jsset_of xs)"
  by (simp add: jsset_of_def distinct_fold_jsset_add)

lemma fold_jsset_add_fresh:
  "distinct xs \<Longrightarrow> set xs \<inter> set acc = {} \<Longrightarrow> fold jsset_add xs acc = acc @ xs"
  by (induction xs arbitrary: acc) (auto simp: jsset_add_def)

lemma jsset_of_distinct: "distinct xs \<Longrightarrow> jsset_of xs = xs"
  by (simp add: jsset_of_def fold_jsset_add_fresh)

lemma ceil_div_ceiling: "ceil_div a b = \<lceil>real_of_int a / real_of_int b\<rceil>"
  by (simp add: ceil_div_def ceiling_divide_eq_div)

section \<open>Facts about the paginator\<close>

lemma pageCount_onPageChange: "pageCount (onPageChange e s) = pageCount s"
  by (simp add: pageCount_def onPageChange_def)

lemma first_onPageChange: "first (onPageChange e s) = ev_first e"
  by (simp add: onPageChange_def)

lemma max_page_bound: "(pc - 1) * 12 \<le> max 0 (pc - 1) * (12::int)"
  by (simp add: max_def)

lemma previous_in_range:
  fixes f m :: int
  assumes "f div 12 \<noteq> 0" "0 \<le> f" "f \<le> m" "f mod 12 = 0"
  shows "0 \<le> f - 12 \<and> f - 12 \<le> m \<and> (f - 12) mod 12 = 0"
proof -
  from assms(4) obtain q where q: "f = 12 * q" by (auto elim: dvdE simp: mod_eq_0_iff_dvd)
  with assms(1) have "q \<noteq> 0" by simp
  with assms(2) q have "1 \<le> q" by simp
  with q have "12 \<le> f" by simp
  moreover from q have "(f - 12) mod 12 = 0" by simp
  ultimately show ?thesis using assms(3) by simp
qed

lemma next_in_range:
  fixes f pc m :: int
  assumes "\<not> f div 12 \<ge> pc - 1" "0 \<le> f" "f mod 12 = 0" "(pc - 1) * 12 \<le> m"
  shows "0 \<le> f + 12 \<and> f + 12 \<le> m \<and> (f + 12) mod 12 = 0"
proof -
  from assms(3) obtain q where q: "f = 12 * q" by (auto elim: dvdE simp: mod_eq_0_iff_dvd)
  with assms(1) have "q + 1 \<le> pc - 1" by simp
  then have "(q + 1) * 12 \<le> (pc - 1) * 12" by simp
  with q assms(4) have "f + 12 \<le> m" by simp
  moreover from q have "(f + 12) mod 12 = 0" by simp
  ultimately show ?thesis using assms(2) by simp
qed

lemma number_in_range:
  fixes pc m :: int
  assumes "int i < pc" "(pc - 1) * 12 \<le> m"
  shows "0 \<le> int i * 12 \<and> int i * 12 \<le> m \<and> (int i * 12) mod 12 = 0"
  using assms by simp

lemma button_in_range:
  assumes "button_enabled s b" "offset_in_range s (first s)" "first s mod API_PAGE_SIZE = 0"
  shows "offset_in_range (button_click b s) (first (button_click b s)) \<and>
         first (button_click b s) mod API_PAGE_SIZE = 0"
proof -
  define m where "m = max 0 (pageCount s - 1) * 12"
  have bound: "(pageCount s - 1) * 12 \<le> m"
    unfolding m_def by (rule max_page_bound)
  have range: "0 \<le> first s" "first s \<le> m"
    using assms(2) by (simp_all add: offset_in_range_def API_PAGE_SIZE_def m_def)
  have aligned: "first s mod 12 = 0"
    using assms(3) by (simp add: API_PAGE_SIZE_def)
  have goal: "offset_in_range (button_click b s) f \<and> f mod API_PAGE_SIZE = 0"
    if "0 \<le> f \<and> f \<le> m \<and> f mod 12 = 0" for f
    using that by (cases b) (simp_all add: offset_in_range_def pageCount_onPageChange API_PAGE_SIZE_def m_def)
  show ?thesis
  proof (cases b)
    case Previous
    with assms(1) have "first s div 12 \<noteq> 0"
      by (simp add: currentPage_def API_PAGE_SIZE_def)
    from previous_in_range [OF this range aligned]
    have "0 \<le> first s - 12 \<and> first s - 12 \<le> m \<and> (first s - 12) mod 12 = 0" .
    moreover have "first (button_click b s) = first s - 12"
      by (simp add: Previous first_onPageChange API_PAGE_SIZE_def)
    ultimately show ?thesis using goal by simp
  next
    case Next
    with assms(1) have "\<not> first s div 12 \<ge> pageCount s - 1"
      by (simp add: currentPage_def API_PAGE_SIZE_def)
    from next_in_range [OF this range(1) aligned bound]
    have "0 \<le> first s + 12 \<and> first s + 12 \<le> m \<and> (first s + 12) mod 12 = 0" .
    moreover have "first (button_click b s) = first s + 12"
      by (simp add: Next first_onPageChange API_PAGE_SIZE_def)
    ultimately show ?thesis using goal by simp
  next
    case (PageNumber i)
    with assms(1) have "int i < pageCount s" by simp
    from number_in_range [OF this bound]
    have "0 \<le> int i * 12 \<and> int i * 12 \<le> m \<and> (int i * 12) mod 12 = 0" .
    moreover have "first (button_click b s) = int i * 12"
      by (simp add: PageNumber first_onPageChange API_PAGE_SIZE_def)
    ultimately show ?thesis using goal by simp
  qed
qed

section \<open>Facts about the loops of the bulk selection\<close>

lemma add_items_done:
  "totalToSelect \<le> selectedCount \<Longrightarrow>
     add_items totalToSelect items (ids, selectedCount) = (ids, selectedCount)"
  by (cases items) simp_all

lemma add_items_append:
  "add_items K (xs @ ys) acc = add_items K ys (add_items K xs acc)"
proof (induction K xs acc rule: add_items.induct)
  case (1 K ids cnt)
  show ?case by simp
next
  case (2 K item items ids cnt)
  then show ?case by (simp add: add_items_done)
qed

lemma add_items_take:
  "add_items K xs (ids, cnt) =
     (fold jsset_add (take (nat (K - cnt)) xs) ids, cnt + int (length (take (nat (K - cnt)) xs)))"
proof (induction xs arbitrary: ids cnt)
  case Nil
  show ?case by simp
next
  case (Cons x xs)
  show ?case
  proof (cases "K \<le> cnt")
    case True
    then show ?thesis by simp
  next
    case False
    then have "nat (K - cnt) = Suc (nat (K - (cnt + 1)))" by simp
    with False Cons show ?thesis by simp
  qed
qed

lemma add_pages_concat:
  "add_pages K batchResults acc = add_items K (concat batchResults) acc"
proof (induction K batchResults acc rule: add_pages.induct)
  case (1 K ids cnt)
  show ?case by simp
next
  case (2 K data batchResults ids cnt)
  then show ?case by (simp add: add_items_done add_items_append)
qed

lemma settle_fulfilled:
  "(\<And>i. i \<in> set arrivals \<Longrightarrow> outcome i = Inr (v i)) \<Longrightarrow>
     settle outcome arrivals slots =
       Inr (map the (fold (\<lambda>i vs. vs[i := Some (v i)]) arrivals slots))"
  by (induction arrivals arbitrary: slots) simp_all

lemma settle_rejected:
  "\<exists>i\<in>set arrivals. isl (outcome i) \<Longrightarrow> isl (settle outcome arrivals slots)"
  by (induction arrivals arbitrary: slots) (auto split: sum.split)

lemma length_fold_update:
  "length (fold (\<lambda>i vs. vs[i := Some (v i)]) arrivals slots) = length slots"
  by (induction arrivals arbitrary: slots) simp_all

lemma nth_fold_update:
  "j < length slots \<Longrightarrow>
     fold (\<lambda>i vs. vs[i := Some (v i)]) arrivals slots ! j =
       (if j \<in> set arrivals then Some (v j) else slots ! j)"
  by (induction arrivals arbitrary: slots) (auto simp: nth_list_update)

lemma promise_all_fulfilled:
  assumes "\<And>p. p \<in> set ps \<Longrightarrow> \<not> isl (task p)"
  shows "promise_all latency ps task = Inr (map (\<lambda>p. projr (task p)) ps)"
proof -
  define arrivals where "arrivals = sort_key (\<lambda>i. latency (ps ! i)) [0..<length ps]"
  define v where "v i = projr (task (ps ! i))" for i
  have arr: "set arrivals = {0..<length ps}"
    by (simp add: arrivals_def)
  have outcome_ok: "task (ps ! i) = Inr (v i)" if "i \<in> set arrivals" for i
  proof -
    from that arr have "ps ! i \<in> set ps" by simp
    then have "\<not> isl (task (ps ! i))" by (rule assms)
    then show ?thesis by (cases "task (ps ! i)") (simp_all add: v_def)
  qed
  have "map the (fold (\<lambda>i vs. vs[i := Some (v i)]) arrivals (replicate (length ps) None))
          = map (\<lambda>p. projr (task p)) ps"
    by (rule nth_equalityI) (simp_all add: length_fold_update nth_fold_update arr v_def)
  with settle_fulfilled [of arrivals "\<lambda>i. task (ps ! i)" v, OF outcome_ok]
  show ?thesis by (simp add: promise_all_def arrivals_def)
qed

lemma promise_all_rejected:
  assumes "p \<in> set ps" "isl (task p)"
  shows "isl (promise_all latency ps task)"
proof -
  from assms(1) obtain i where "i < length ps" "ps ! i = p"
    by (auto simp: in_set_conv_nth)
  with assms(2) have "\<exists>i\<in>set (sort_key (\<lambda>i. latency (ps ! i)) [0..<length ps]). isl (task (ps ! i))"
    by auto
  then show ?thesis
    unfolding promise_all_def by (rule settle_rejected)
qed

lemma promise_all_Inr:
  assumes "promise_all latency ps task = Inr results"
  shows "(\<forall>p\<in>set ps. \<not> isl (task p)) \<and> results = map (\<lambda>p. projr (task p)) ps"
proof -
  have ok: "\<not> isl (task p)" if "p \<in> set ps" for p
  proof
    assume "isl (task p)"
    with that have "isl (promise_all latency ps task)" by (rule promise_all_rejected)
    with assms show False by simp
  qed
  with promise_all_fulfilled [of ps task latency] assms show ?thesis by simp
qed

lemma slice_batch: "slice i (i + CONCURRENT_REQUESTS) ps = take CONCURRENT_REQUESTS (drop i ps)"
  by (simp add: slice_def)

lemma page_items_fulfilled:
  "(\<And>p. p \<in> set ps \<Longrightarrow> \<not> isl (fetch p)) \<Longrightarrow>
     map (\<lambda>p. projr (fetch p)) ps = map (\<lambda>p. page_items (fetch p)) ps"
proof (rule map_cong [OF refl])
  fix p assume "p \<in> set ps" and ok: "\<And>p. p \<in> set ps \<Longrightarrow> \<not> isl (fetch p)"
  then have "\<not> isl (fetch p)" by simp
  then show "projr (fetch p) = page_items (fetch p)"
    by (cases "fetch p") (simp_all add: page_items_def)
qed

lemma drop_batch:
  "drop i ps = take CONCURRENT_REQUESTS (drop i ps) @ drop (i + CONCURRENT_REQUESTS) ps"
  by (metis append_take_drop_id drop_drop add.commute)

declare batch_loop.simps [simp del]

text \<open>
  What the batch loop returns when no \<open>Promise.all\<close> rejects: the items of the pages from
  index \<open>i\<close> on, taken in page order until the count is reached.  A page that was never
  requested contributes nothing, since the count was reached before it.
\<close>

lemma batch_loop_result:
  "batch_loop latency fetch K ps i acc = Inr r \<Longrightarrow>
     r = add_items K (concat (map (\<lambda>p. page_items (fetch p)) (drop i ps))) acc"
proof (induction latency fetch K ps i acc arbitrary: r rule: batch_loop.induct)
  case (1 latency fetch K ps i ids cnt)
  show ?case
  proof (cases "i < length ps")
    case False
    with "1.prems" show ?thesis by (auto simp: batch_loop.simps)
  next
    case inside: True
    show ?thesis
    proof (cases "K \<le> cnt")
      case True
      with inside "1.prems" show ?thesis by (auto simp: batch_loop.simps add_items_done)
    next
      case False
      let ?batch = "take CONCURRENT_REQUESTS (drop i ps)"
      from inside False "1.prems" obtain batchResults where
        all: "promise_all latency ?batch fetch = Inr batchResults" and
        rest: "batch_loop latency fetch K ps (i + CONCURRENT_REQUESTS)
                 (add_pages K batchResults (ids, cnt)) = Inr r"
        by (auto simp: batch_loop.simps [of _ _ _ _ i] slice_batch split: sum.splits)
      from promise_all_Inr [OF all] have
        ok: "\<And>p. p \<in> set ?batch \<Longrightarrow> \<not> isl (fetch p)" and
        res: "batchResults = map (\<lambda>p. projr (fetch p)) ?batch"
        by simp_all
      from res page_items_fulfilled [of ?batch fetch, OF ok]
      have res': "batchResults = map (\<lambda>p. page_items (fetch p)) ?batch" by simp
      from inside False all have "r = add_items K (concat (map (\<lambda>p. page_items (fetch p))
                 (drop (i + CONCURRENT_REQUESTS) ps))) (add_pages K batchResults (ids, cnt))"
        by (intro "1.IH" [OF _ _ _ rest]) (simp_all add: slice_batch)
      also have "\<dots> = add_items K (concat (map (\<lambda>p. page_items (fetch p))
                 (?batch @ drop (i + CONCURRENT_REQUESTS) ps))) (ids, cnt)"
        by (simp add: add_pages_concat add_items_append res')
      also have "?batch @ drop (i + CONCURRENT_REQUESTS) ps = drop i ps"
        by (rule drop_batch [symmetric])
      finally show ?thesis .
    qed
  qed
qed

text \<open>The moments at which the responses arrive do not change a successful result.\<close>

lemma batch_loop_latency:
  "batch_loop latency fetch K ps i acc = Inr r \<Longrightarrow> batch_loop latency' fetch K ps i acc = Inr r"
proof (induction latency fetch K ps i acc arbitrary: r rule: batch_loop.induct)
  case (1 latency fetch K ps i ids cnt)
  show ?case
  proof (cases "i < length ps \<and> \<not> K \<le> cnt")
    case False
    with "1.prems" show ?thesis
      by (auto simp: batch_loop.simps [of _ _ _ _ i] split: if_splits)
  next
    case True
    let ?batch = "take CONCURRENT_REQUESTS (drop i ps)"
    from True "1.prems" obtain batchResults where
      all: "promise_all latency ?batch fetch = Inr batchResults" and
      rest: "batch_loop latency fetch K ps (i + CONCURRENT_REQUESTS)
               (add_pages K batchResults (ids, cnt)) = Inr r"
      by (auto simp: batch_loop.simps [of _ _ _ _ i] slice_batch split: sum.splits)
    from promise_all_Inr [OF all] have
      ok: "\<And>p. p \<in> set ?batch \<Longrightarrow> \<not> isl (fetch p)" and
      res: "batchResults = map (\<lambda>p. projr (fetch p)) ?batch"
      by simp_all
    from promise_all_fulfilled [of ?batch fetch latency', OF ok] res
    have all': "promise_all latency' ?batch fetch = Inr batchResults" by simp
    from True all have "batch_loop latency' fetch K ps (i + CONCURRENT_REQUESTS)
               (add_pages K batchResults (ids, cnt)) = Inr r"
      by (intro "1.IH" [OF _ _ _ rest]) (simp_all add: slice_batch)
    with True all' show ?thesis
      by (simp add: batch_loop.simps [of _ _ _ _ i] slice_batch)
  qed
qed

lemma add_items_count:
  "snd (add_items K xs (ids, cnt)) \<le> cnt + int (length xs)"
  by (simp add: add_items_take)

lemma length_concat_bound:
  "(\<And>xs. xs \<in> set xss \<Longrightarrow> length xs \<le> n) \<Longrightarrow> length (concat xss) \<le> n * length xss"
  by (induction xss) (auto simp: add_mono)

text \<open>
  When no page holds more than twelve items, the count cannot be reached before the last
  of the pages: every batch is requested, and one failing page makes the loop fail.
\<close>

lemma batch_loop_rejects:
  "\<exists>p\<in>set (drop i ps). isl (fetch p) \<Longrightarrow>
   cnt + 12 * (int (length ps) - int i - 1) < K \<Longrightarrow>
   (\<And>p items. fetch p = Inr items \<Longrightarrow> length items \<le> 12) \<Longrightarrow>
   isl (batch_loop latency fetch K ps i (ids, cnt))"
proof (induction latency fetch K ps i "(ids, cnt)" arbitrary: ids cnt rule: batch_loop.induct)
  case (1 latency fetch K ps i ids cnt)
  from "1.prems"(1) have inside: "i < length ps" by (cases "i < length ps") auto
  with "1.prems"(2) have below: "\<not> K \<le> cnt"
    by (smt (verit) mult_nonneg_nonneg of_nat_less_iff)
  let ?batch = "take CONCURRENT_REQUESTS (drop i ps)"
  show ?case
  proof (cases "promise_all latency ?batch fetch")
    case (Inl e)
    with inside below show ?thesis
      by (simp add: batch_loop.simps [of _ _ _ _ i] slice_batch)
  next
    case (Inr batchResults)
    from promise_all_Inr [OF Inr] have
      ok: "\<And>p. p \<in> set ?batch \<Longrightarrow> \<not> isl (fetch p)" and
      res: "batchResults = map (\<lambda>p. projr (fetch p)) ?batch"
      by simp_all
    obtain ids' cnt' where acc': "add_pages K batchResults (ids, cnt) = (ids', cnt')"
      by (cases "add_pages K batchResults (ids, cnt)")
    from "1.prems"(1) drop_batch [of i ps] ok
    have later: "\<exists>p\<in>set (drop (i + CONCURRENT_REQUESTS) ps). isl (fetch p)"
      by (metis Un_iff set_append)
    then have more: "i + 3 < length ps"
      by (cases "i + 3 < length ps") (auto simp: CONCURRENT_REQUESTS_def)
    have "length xs \<le> 12" if "xs \<in> set batchResults" for xs
    proof -
      from that res obtain p where "p \<in> set ?batch" "xs = projr (fetch p)" by auto
      with ok [of p] "1.prems"(3) [of p xs] show ?thesis by (cases "fetch p") auto
    qed
    then have "length (concat batchResults) \<le> 12 * length batchResults"
      by (rule length_concat_bound)
    moreover have "length batchResults \<le> 3"
      by (simp add: res CONCURRENT_REQUESTS_def)
    ultimately have "length (concat batchResults) \<le> 36" by simp
    moreover from acc' have "cnt' \<le> cnt + int (length (concat batchResults))"
      using add_items_count [of K "concat batchResults" ids cnt] by (simp add: add_pages_concat)
    ultimately have "cnt' \<le> cnt + 36" by simp
    with "1.prems"(2) more
    have inv: "cnt' + 12 * (int (length ps) - int (i + CONCURRENT_REQUESTS) - 1) < K"
      by (simp add: CONCURRENT_REQUESTS_def)
    from inside below Inr acc' have "isl (batch_loop latency fetch K ps (i + CONCURRENT_REQUESTS) (ids', cnt'))"
      by (intro "1.hyps" [OF _ _ _ _ later inv "1.prems"(3)]) (simp_all add: slice_batch)
    with inside below Inr acc' show ?thesis
      by (simp add: batch_loop.simps [of _ _ _ _ i] slice_batch)
  qed
qed

lemma batch_loop_fulfilled:
  "(\<And>p. p \<in> set (drop i ps) \<Longrightarrow> \<not> isl (fetch p)) \<Longrightarrow>
     \<not> isl (batch_loop latency fetch K ps i acc)"
proof (induction latency fetch K ps i acc rule: batch_loop.induct)
  case (1 latency fetch K ps i ids cnt)
  show ?case
  proof (cases "i < length ps \<and> \<not> K \<le> cnt")
    case False
    then show ?thesis by (auto simp: batch_loop.simps [of _ _ _ _ i])
  next
    case True
    let ?batch = "take CONCURRENT_REQUESTS (drop i ps)"
    have ok: "\<not> isl (fetch p)" if "p \<in> set ?batch" for p
      using that "1.prems" [of p] by (auto dest: in_set_takeD)
    note all = promise_all_fulfilled [of ?batch fetch latency, OF ok]
    have "\<not> isl (batch_loop latency fetch K ps (i + CONCURRENT_REQUESTS)
             (add_pages K (map (\<lambda>p. projr (fetch p)) ?batch) (ids, cnt)))"
    proof (rule "1.IH")
      show "i < length ps" "\<not> K \<le> cnt" using True by simp_all
      show "promise_all latency (slice i (i + CONCURRENT_REQUESTS) ps) fetch
              = Inr (map (\<lambda>p. projr (fetch p)) ?batch)"
        using all by (simp add: slice_batch)
      fix p assume "p \<in> set (drop (i + CONCURRENT_REQUESTS) ps)"
      then have "p \<in> set (drop i ps)"
        by (metis drop_batch Un_iff set_append)
      then show "\<not> isl (fetch p)" by (rule "1.prems")
    qed
    with True all show ?thesis
      by (simp add: batch_loop.simps [of _ _ _ _ i] slice_batch)
  qed
qed

lemma bulk_fetch_ids_result:
  assumes "bulk_fetch_ids latency fetch K records = Inr A"
  shows "A = fold jsset_add
               (take (nat K) (concat (map (\<lambda>p. page_items (fetch p)) (page_numbers K records)))) []"
proof -
  from assms obtain cnt where
    "batch_loop latency fetch K (page_numbers K records) 0 ([], 0) = Inr (A, cnt)"
    by (auto simp: bulk_fetch_ids_def split: sum.splits)
  from batch_loop_result [OF this] show ?thesis
    by (simp add: add_items_take)
qed

lemma bulk_fetch_ids_latency:
  assumes "bulk_fetch_ids latency fetch K records = Inr A"
  shows "bulk_fetch_ids latency' fetch K records = Inr A"
proof -
  from assms obtain cnt where
    "batch_loop latency fetch K (page_numbers K records) 0 ([], 0) = Inr (A, cnt)"
    by (auto simp: bulk_fetch_ids_def split: sum.splits)
  from batch_loop_latency [OF this, of latency'] show ?thesis
    by (simp add: bulk_fetch_ids_def)
qed

lemma bulk_fetch_ids_same:
  "map_sum (\<lambda>e. ()) id (bulk_fetch_ids latency fetch K records)
     = map_sum (\<lambda>e. ()) id (bulk_fetch_ids latency' fetch K records)"
proof (cases "bulk_fetch_ids latency fetch K records")
  case (Inr A)
  with bulk_fetch_ids_latency [OF Inr, of latency'] show ?thesis by simp
next
  case (Inl e)
  show ?thesis
  proof (cases "bulk_fetch_ids latency' fetch K records")
    case (Inr A)
    with bulk_fetch_ids_latency [OF Inr, of latency] Inl show ?thesis by simp
  next
    case Inl' : (Inl e')
    with Inl show ?thesis by simp
  qed
qed

lemma bulk_fetch_ids_fulfilled:
  assumes "\<And>p. p \<in> set (page_numbers K records) \<Longrightarrow> \<not> isl (fetch p)"
  shows "\<not> isl (bulk_fetch_ids latency fetch K records)"
proof -
  have "\<not> isl (batch_loop latency fetch K (page_numbers K records) 0 ([], 0))"
    by (rule batch_loop_fulfilled) (simp add: assms)
  then show ?thesis
    by (auto simp: bulk_fetch_ids_def split: sum.splits)
qed

lemma ceil_div_12: "K \<le> 12 * ceil_div K 12 \<and> 12 * ceil_div K 12 < K + 12"
proof -
  have "- K = 12 * ((- K) div 12) + (- K) mod 12" by simp
  moreover have "0 \<le> (- K) mod 12" "(- K) mod 12 < 12" by simp_all
  ultimately show ?thesis unfolding ceil_div_def by linarith
qed

lemma length_page_numbers:
  "length (page_numbers K records) = nat (min (ceil_div K 12) (ceil_div records 12))"
  by (simp add: page_numbers_def API_PAGE_SIZE_def Let_def)

lemma bulk_fetch_ids_rejects:
  assumes "0 < K"
    and "\<And>p items. fetch p = Inr items \<Longrightarrow> length items \<le> 12"
    and "\<exists>p\<in>set (page_numbers K records). isl (fetch p)"
  shows "isl (bulk_fetch_ids latency fetch K records)"
proof -
  have "12 * (int (length (page_numbers K records)) - 1) < K"
    using ceil_div_12 [of K] assms(1) by (simp add: length_page_numbers) linarith
  with assms(3) have "isl (batch_loop latency fetch K (page_numbers K records) 0 ([], 0))"
    by (intro batch_loop_rejects assms(2)) simp_all
  then show ?thesis
    by (auto simp: bulk_fetch_ids_def split: sum.splits)
qed

lemma page_of_index: "page_of coll (int i + 1) = take 12 (drop (12 * i) coll)"
  by (simp add: page_of_def API_PAGE_SIZE_def)

lemma concat_pages: "concat (map (\<lambda>i. page_of coll (int i + 1)) [0..<m]) = take (12 * m) coll"
proof (induction m)
  case 0
  show ?case by simp
next
  case (Suc m)
  have "take (12 * m) coll @ take 12 (drop (12 * m) coll) = take (12 * Suc m) coll"
    by (metis take_add mult_Suc_right add.commute)
  with Suc show ?case by (simp add: page_of_index del: mult_Suc_right)
qed

lemma page_numbers_positive: "p \<in> set (page_numbers K records) \<Longrightarrow> 1 \<le> p"
  by (auto simp: page_numbers_def Let_def)

lemma served_pages:
  assumes "\<And>p. 1 \<le> p \<Longrightarrow> fetch p = Inr (page_of coll p)"
  shows "concat (map (\<lambda>p. page_items (fetch p)) (page_numbers K records))
           = take (12 * length (page_numbers K records)) coll"
proof -
  have "map (\<lambda>p. page_items (fetch p)) (page_numbers K records)
          = map (page_of coll) (page_numbers K records)"
    by (rule map_cong [OF refl]) (simp add: assms page_numbers_positive page_items_def)
  also have "\<dots> = map (\<lambda>i. page_of coll (int i + 1)) [0..<length (page_numbers K records)]"
    by (simp add: page_numbers_def Let_def comp_def)
  finally show ?thesis by (simp add: concat_pages)
qed

lemma take_enough_pages:
  assumes "0 \<le> K" "records = int (length coll)"
  shows "take (nat K) (take (12 * length (page_numbers K records)) coll) = take (nat K) coll"
proof (cases "ceil_div K 12 \<le> ceil_div records 12")
  case True
  with ceil_div_12 [of K] assms(1) have "nat K \<le> 12 * length (page_numbers K records)"
    by (simp add: length_page_numbers) linarith
  then show ?thesis by (simp add: min_def)
next
  case False
  with ceil_div_12 [of records] assms(2) have "length coll \<le> 12 * length (page_numbers K records)"
    by (simp add: length_page_numbers) linarith
  then show ?thesis by simp
qed

lemma bulk_fetch_ids_served:
  assumes "0 \<le> K" "records = int (length coll)"
    and "\<And>p. 1 \<le> p \<Longrightarrow> fetch p = Inr (page_of coll p)"
  shows "bulk_fetch_ids latency fetch K records = Inr (jsset_of (take (nat K) coll))"
proof -
  have "\<not> isl (bulk_fetch_ids latency fetch K records)"
    by (rule bulk_fetch_ids_fulfilled) (simp add: assms(3) page_numbers_positive)
  then obtain A where A: "bulk_fetch_ids latency fetch K records = Inr A"
    by (cases "bulk_fetch_ids latency fetch K records") simp_all
  from bulk_fetch_ids_result [OF A] served_pages [of fetch coll K records, OF assms(3)]
    take_enough_pages [OF assms(1,2)]
  have "A = jsset_of (take (nat K) coll)" by (simp add: jsset_of_def)
  with A show ?thesis by simp
qed

lemma page_numbers_prefix:
  "K \<le> K' \<Longrightarrow> \<exists>more. page_numbers K' records = page_numbers K records @ more"
proof -
  assume "K \<le> K'"
  then have "ceil_div K 12 \<le> ceil_div K' 12"
    by (simp add: ceil_div_def zdiv_mono1)
  then have le: "nat (min (ceil_div K 12) (ceil_div records 12))
      \<le> nat (min (ceil_div K' 12) (ceil_div records 12))" by simp
  define a where "a = nat (min (ceil_div K 12) (ceil_div records 12))"
  define b where "b = nat (min (ceil_div K' 12) (ceil_div records 12))"
  from le have "[0..<b] = [0..<a] @ [a..<b]"
    unfolding a_def b_def by (metis le0 upt_add_eq_append le_add_diff_inverse)
  then show ?thesis
    by (simp add: page_numbers_def Let_def API_PAGE_SIZE_def a_def b_def)
qed

lemma set_take_prefix: "n \<le> m \<Longrightarrow> set (take n xs) \<subseteq> set (take m (xs @ ys))"
proof -
  assume "n \<le> m"
  have "set (take n xs) \<subseteq> set (take n (xs @ ys))" by simp
  also from \<open>n \<le> m\<close> have "\<dots> \<subseteq> set (take m (xs @ ys))" by (rule set_take_subset_set_take)
  finally show ?thesis .
qed

lemma bulk_fetch_ids_mono:
  assumes "bulk_fetch_ids latency fetch K records = Inr A"
    and "bulk_fetch_ids latency' fetch (K + 1) records = Inr B"
  shows "set A \<subseteq> set B"
proof -
  define items where "items ps = concat (map (\<lambda>p. page_items (fetch p)) ps)" for ps
  from page_numbers_prefix [of K "K + 1" records] obtain more where
    "page_numbers (K + 1) records = page_numbers K records @ more" by auto
  then have "items (page_numbers (K + 1) records) = items (page_numbers K records) @ items more"
    by (simp add: items_def)
  moreover from bulk_fetch_ids_result [OF assms(1)]
  have "set A = set (take (nat K) (items (page_numbers K records)))"
    by (simp add: set_fold_jsset_add items_def)
  moreover from bulk_fetch_ids_result [OF assms(2)]
  have "set B = set (take (nat (K + 1)) (items (page_numbers (K + 1) records)))"
    by (simp add: set_fold_jsset_add items_def)
  moreover have "nat K \<le> nat (K + 1)" by simp
  ultimately show ?thesis
    using set_take_prefix [of "nat K" "nat (K + 1)" "items (page_numbers K records)" "items more"]
    by simp
qed

section \<open>Facts about the sample inputs\<close>

lemma sample_pages: "page_numbers 40 50 = [1, 2, 3, 4]"
  by code_simp

lemma sample_contract: "failing_fetch p = Inr items \<Longrightarrow> int (length items) \<le> API_PAGE_SIZE"
  by (auto simp: failing_fetch_def sample_fetch_def page_of_def API_PAGE_SIZE_def split: if_splits)

lemma sample_served: "1 \<le> p \<Longrightarrow> sample_fetch p = Inr (page_of sample_collection p)"
  by (simp add: sample_fetch_def)

lemma sample_total: "totalRecords sample_table = int (length sample_collection)"
  by (simp add: sample_table_def sample_collection_def)

lemma sample_distinct: "distinct sample_collection"
  by (simp add: sample_collection_def)

section \<open>Bulk selection: the claims\<close>

text \<open>
  Claim C1 (failure atomicity).  The bulk selection is asked for \<open>K > 0\<close> rows and the
  request for one of the pages it needs, \<open>page_numbers K totalRecords\<close>, fails; no page
  holds more than \<open>API_PAGE_SIZE\<close> items, so every one of these pages is requested.
  Then the \<open>try\<close> block ends in its \<open>catch\<close> clause, \<open>setSelectedIds\<close> is not reached, and
  the selection after the operation is exactly the selection before it.
\<close>
theorem bulk_failure_leaves_selection:
  assumes "0 < K" and "tempRows s = Some K"
    and "\<And>p items. fetch p = Inr items \<Longrightarrow> int (length items) \<le> API_PAGE_SIZE"
    and "\<exists>p\<in>set (page_numbers K (totalRecords s)). isl (fetch p)"
  shows "isl (bulk_fetch_ids latency fetch K (totalRecords s)) \<and>
         selectedIds (applyRowsPerPageAndSelect latency fetch s) = selectedIds s"
proof -
  have "isl (bulk_fetch_ids latency fetch K (totalRecords s))"
    using assms(1) _ assms(4)
  proof (rule bulk_fetch_ids_rejects)
    fix p items assume "fetch p = Inr items"
    then show "length items \<le> 12" using assms(3) [of p items] by (simp add: API_PAGE_SIZE_def)
  qed
  then obtain e where "bulk_fetch_ids latency fetch K (totalRecords s) = Inl e"
    by (cases "bulk_fetch_ids latency fetch K (totalRecords s)") simp_all
  with assms(1,2) show ?thesis
    by (simp add: applyRowsPerPageAndSelect_def)
qed

theorem bulk_failure_leaves_selection_witness:
  "selectedIds (applyRowsPerPageAndSelect sample_latency failing_fetch sample_table) = [7, 101]"
proof -
  have "tempRows sample_table = Some 40" by (simp add: sample_table_def)
  moreover have "\<exists>p\<in>set (page_numbers 40 (totalRecords sample_table)). isl (failing_fetch p)"
    by (simp add: sample_table_def sample_pages failing_fetch_def)
  ultimately show ?thesis
    using bulk_failure_leaves_selection [of 40 sample_table failing_fetch sample_latency]
      sample_contract
    by (simp add: sample_table_def)
qed

text \<open>
  Claim C2 (cardinality, replacement).  Against a collection of \<open>totalRecords\<close> items
  with distinct identifiers, served in pages, a bulk selection of \<open>K \<ge> 0\<close> rows leaves a
  selection of exactly \<open>min K totalRecords\<close> identifiers, and that selection is the same
  whatever was selected before: the earlier selection is replaced, not merged.
\<close>
theorem bulk_cardinality:
  assumes "0 \<le> K" and "tempRows s = Some K"
    and "totalRecords s = int (length coll)" and "distinct coll"
    and "\<And>p. 1 \<le> p \<Longrightarrow> fetch p = Inr (page_of coll p)"
  shows "card (set (selectedIds (applyRowsPerPageAndSelect latency fetch s))) = nat (min K (totalRecords s)) \<and>
         length (selectedIds (applyRowsPerPageAndSelect latency fetch s)) = nat (min K (totalRecords s)) \<and>
         selectedIds (applyRowsPerPageAndSelect latency fetch (s\<lparr>selectedIds := prior\<rparr>))
           = selectedIds (applyRowsPerPageAndSelect latency fetch s)"
proof -
  have ids: "selectedIds (applyRowsPerPageAndSelect latency fetch (s\<lparr>selectedIds := before\<rparr>))
               = take (nat K) coll" for before
  proof (cases "K = 0")
    case True
    with assms(2) show ?thesis by (simp add: applyRowsPerPageAndSelect_def)
  next
    case False
    with assms(1) have "0 < K" by simp
    moreover note bulk_fetch_ids_served [of K "totalRecords s" coll fetch latency, OF assms(1,3,5)]
    ultimately show ?thesis using assms(2,4)
      by (simp add: applyRowsPerPageAndSelect_def jsset_of_distinct)
  qed
  from ids [of "selectedIds s"] have now: "selectedIds (applyRowsPerPageAndSelect latency fetch s) = take (nat K) coll"
    by simp
  have "card (set (take (nat K) coll)) = length (take (nat K) coll)"
    using assms(4) by (simp add: distinct_card)
  moreover have "length (take (nat K) coll) = nat (min K (totalRecords s))"
    using assms(1,3) by (auto simp: min_def)
  ultimately show ?thesis using ids [of prior] now by simp
qed

theorem bulk_cardinality_witness:
  "card (set (selectedIds (applyRowsPerPageAndSelect sample_latency sample_fetch sample_table))) = 40 \<and>
   selectedIds (applyRowsPerPageAndSelect sample_latency sample_fetch (sample_table\<lparr>selectedIds := [1, 2, 3]\<rparr>))
     = selectedIds (applyRowsPerPageAndSelect sample_latency sample_fetch sample_table)"
proof -
  have "tempRows sample_table = Some 40" by (simp add: sample_table_def)
  with bulk_cardinality [of 40 sample_table sample_collection sample_fetch sample_latency "[1, 2, 3]",
      OF _ _ sample_total sample_distinct sample_served]
  show ?thesis by (simp add: sample_table_def)
qed

text \<open>
  Claim C3 (canonical prefix, whatever the timing).  For \<open>K > 0\<close> and every assignment of
  arrival times to the responses, the selection built by a successful bulk selection is,
  in insertion order, the first \<open>min K totalRecords\<close> identifiers of the collection in
  its canonical order: page after page, the page that crosses the count cut to its
  leading items.
\<close>
theorem bulk_prefix_in_order:
  assumes "0 < K" and "tempRows s = Some K"
    and "totalRecords s = int (length coll)" and "distinct coll"
    and "\<And>p. 1 \<le> p \<Longrightarrow> fetch p = Inr (page_of coll p)"
  shows "selectedIds (applyRowsPerPageAndSelect latency fetch s)
           = take (nat (min K (totalRecords s))) coll"
proof -
  from assms(1) have "0 \<le> K" by simp
  note bulk_fetch_ids_served [of K "totalRecords s" coll fetch latency, OF this assms(3,5)]
  moreover have "take (nat (min K (totalRecords s))) coll = take (nat K) coll"
    using assms(3) by (simp add: min_def)
  ultimately show ?thesis using assms(1,2,4)
    by (simp add: applyRowsPerPageAndSelect_def jsset_of_distinct)
qed

theorem bulk_prefix_in_order_witness:
  "selectedIds (applyRowsPerPageAndSelect sample_latency sample_fetch sample_table)
     = take 40 sample_collection"
proof -
  have "tempRows sample_table = Some 40" by (simp add: sample_table_def)
  with bulk_prefix_in_order [of 40 sample_table sample_collection sample_fetch sample_latency,
      OF _ _ sample_total sample_distinct sample_served]
  show ?thesis by (simp add: sample_table_def)
qed

text \<open>
  Claim C4 (monotone prefix).  For \<open>K \<ge> 0\<close> and the same pages behind the requests, when
  the bulk selections of \<open>K\<close> and of \<open>K + 1\<close> rows both succeed, every identifier
  selected by the first is selected by the second, whatever the arrival times were.
\<close>
theorem bulk_monotone:
  assumes "0 \<le> K"
    and "bulk_fetch_ids latency fetch K (totalRecords s) = Inr A"
    and "bulk_fetch_ids latency' fetch (K + 1) (totalRecords s) = Inr B"
  shows "selectedIds (applyRowsPerPageAndSelect latency fetch (s\<lparr>tempRows := Some K\<rparr>)) = A \<and>
         selectedIds (applyRowsPerPageAndSelect latency' fetch (s\<lparr>tempRows := Some (K + 1)\<rparr>)) = B \<and>
         set A \<subseteq> set B"
proof -
  have "A = []" if "K = 0"
    using that bulk_fetch_ids_result [OF assms(2)] by simp
  with assms(1,2) have "selectedIds (applyRowsPerPageAndSelect latency fetch (s\<lparr>tempRows := Some K\<rparr>)) = A"
    by (cases "K = 0") (simp_all add: applyRowsPerPageAndSelect_def)
  moreover from assms(1,3)
  have "selectedIds (applyRowsPerPageAndSelect latency' fetch (s\<lparr>tempRows := Some (K + 1)\<rparr>)) = B"
    by (simp add: applyRowsPerPageAndSelect_def)
  moreover note bulk_fetch_ids_mono [OF assms(2,3)]
  ultimately show ?thesis by simp
qed

lemma sample_bulk:
  "0 \<le> K \<Longrightarrow> bulk_fetch_ids latency sample_fetch K (totalRecords sample_table)
     = Inr (take (nat K) sample_collection)"
  using bulk_fetch_ids_served [of K "totalRecords sample_table" sample_collection sample_fetch latency,
      OF _ sample_total sample_served]
  by (simp add: jsset_of_distinct sample_distinct)

theorem bulk_monotone_witness:
  "set (selectedIds (applyRowsPerPageAndSelect sample_latency sample_fetch (sample_table\<lparr>tempRows := Some 40\<rparr>)))
     \<subseteq> set (selectedIds (applyRowsPerPageAndSelect (\<lambda>p. 0) sample_fetch (sample_table\<lparr>tempRows := Some 41\<rparr>)))"
  using bulk_monotone [of 40 sample_latency sample_fetch sample_table "take 40 sample_collection"
      "\<lambda>p. 0" "take 41 sample_collection"]
    sample_bulk [of 40 sample_latency] sample_bulk [of 41 "\<lambda>p. 0"]
  by simp

text \<open>
  Claim C5 (idempotence).  A second bulk selection with the same count, the same record
  total and the same pages behind the requests, run on the selection the first one left,
  leaves that selection as it is.
\<close>
theorem bulk_idempotent:
  assumes "tempRows t = tempRows s" and "totalRecords t = totalRecords s"
    and "selectedIds t = selectedIds (applyRowsPerPageAndSelect latency fetch s)"
  shows "selectedIds (applyRowsPerPageAndSelect latency' fetch t)
           = selectedIds (applyRowsPerPageAndSelect latency fetch s)"
proof -
  define K where "K = (case tempRows s of None \<Rightarrow> 0 | Some n \<Rightarrow> n)"
  show ?thesis
  proof (cases "K \<le> 0")
    case True
    with assms(1) show ?thesis by (simp add: applyRowsPerPageAndSelect_def K_def)
  next
    case False
    show ?thesis
    proof (cases "bulk_fetch_ids latency fetch K (totalRecords s)")
      case (Inr A)
      with bulk_fetch_ids_latency [OF Inr, of latency'] False assms(1,2) show ?thesis
        by (simp add: applyRowsPerPageAndSelect_def K_def)
    next
      case (Inl e)
      with bulk_fetch_ids_same [of latency fetch K "totalRecords s" latency']
      obtain e' where "bulk_fetch_ids latency' fetch K (totalRecords s) = Inl e'"
        by (cases "bulk_fetch_ids latency' fetch K (totalRecords s)") simp_all
      with Inl False assms show ?thesis
        by (simp add: applyRowsPerPageAndSelect_def K_def)
    qed
  qed
qed

theorem bulk_idempotent_witness:
  "selectedIds (applyRowsPerPageAndSelect (\<lambda>p. 0) sample_fetch
       (applyRowsPerPageAndSelect sample_latency sample_fetch sample_table))
     = selectedIds (applyRowsPerPageAndSelect sample_latency sample_fetch sample_table)"
proof -
  have "tempRows (applyRowsPerPageAndSelect sample_latency sample_fetch sample_table) = tempRows sample_table"
    "totalRecords (applyRowsPerPageAndSelect sample_latency sample_fetch sample_table) = totalRecords sample_table"
    by (simp_all add: applyRowsPerPageAndSelect_def Let_def split: sum.split)
  then show ?thesis
    by (rule bulk_idempotent) simp
qed

section \<open>Selection of single rows and of the current page: the claims\<close>

lemma has_selectedArtworkIds:
  "jsset_has (selectedArtworkIds s) x \<longleftrightarrow> x \<in> id_field ` set (selectedArtworks s)"
  by (simp add: jsset_has_def selectedArtworkIds_def set_jsset_of)

text \<open>
  Claim C6 (page scoping).  Select Page and Deselect Page work with the identifiers of the
  rows on the current page, \<open>currentPageIds\<close>.  An identifier that is not among them is
  selected after either operation exactly when it was selected before.
\<close>
theorem page_select_scoped:
  "\<not> jsset_has (jsset_of (map id_field (artworks s))) x \<Longrightarrow>
     (jsset_has (selectedIds (selectAllCurrentPage s)) x \<longleftrightarrow> jsset_has (selectedIds s) x) \<and>
     (jsset_has (selectedIds (deselectAllCurrentPage s)) x \<longleftrightarrow> jsset_has (selectedIds s) x)"
  by (auto simp: selectAllCurrentPage_def deselectAllCurrentPage_def jsset_has_def set_jsset_of Let_def)

theorem page_select_scoped_witness:
  "jsset_has (selectedIds (selectAllCurrentPage sample_table)) 7 \<and>
   jsset_has (selectedIds (deselectAllCurrentPage sample_table)) 7 \<and>
   \<not> jsset_has (selectedIds (selectAllCurrentPage sample_table)) 55 \<and>
   \<not> jsset_has (selectedIds (deselectAllCurrentPage sample_table)) 55"
proof -
  have "\<not> jsset_has (jsset_of (map id_field (artworks sample_table))) 7"
    "\<not> jsset_has (jsset_of (map id_field (artworks sample_table))) 55"
    by (simp_all add: jsset_has_def set_jsset_of sample_table_def sample_artwork_def)
  moreover have "jsset_has (selectedIds sample_table) 7" "\<not> jsset_has (selectedIds sample_table) 55"
    by (simp_all add: jsset_has_def sample_table_def)
  ultimately show ?thesis
    using page_select_scoped [of sample_table 7] page_select_scoped [of sample_table 55]
    by simp
qed

text \<open>
  Claim C7 (a row checked, then unchecked).  As stated, the pair of calls restores the
  membership the identifier had before.  It does not when the row was already selected:
  checking it changes nothing and unchecking it removes it.
\<close>
theorem toggle_on_off_counterexample:
  "jsset_has (selectedArtworkIds sample_custom) 7 \<and>
   \<not> jsset_has (selectedArtworkIds
        (handleCheckboxChange (sample_artwork 7 ''7'') False
          (handleCheckboxChange (sample_artwork 7 ''7'') True sample_custom))) 7"
  by (simp add: has_selectedArtworkIds handleCheckboxChange_def sample_custom_def sample_artwork_def)

text \<open>
  Claim C7, amended.  After \<open>handleCheckboxChange artwork true\<close> followed by
  \<open>handleCheckboxChange artwork false\<close> the artwork's identifier is not selected, every
  other identifier is selected exactly when it was before, and when the identifier was
  not selected before, the selection is restored as it was.
\<close>

theorem toggle_on_off:
  "\<not> jsset_has (selectedArtworkIds (handleCheckboxChange a False (handleCheckboxChange a True s))) (id_field a) \<and>
   (\<forall>x. x \<noteq> id_field a \<longrightarrow>
      (jsset_has (selectedArtworkIds (handleCheckboxChange a False (handleCheckboxChange a True s))) x
         \<longleftrightarrow> jsset_has (selectedArtworkIds s) x)) \<and>
   (\<not> jsset_has (selectedArtworkIds s) (id_field a) \<longrightarrow>
      selectedArtworks (handleCheckboxChange a False (handleCheckboxChange a True s)) = selectedArtworks s)"
proof -
  have keep: "filter (\<lambda>item. id_field item \<noteq> id_field a) xs = xs"
    if "id_field a \<notin> id_field ` set xs" for xs :: "Artwork list"
    using that by (induction xs) auto
  show ?thesis
    by (auto simp: has_selectedArtworkIds handleCheckboxChange_def list_ex_iff Let_def keep)
qed

theorem toggle_on_off_witness:
  "\<not> jsset_has (selectedArtworkIds sample_custom) 8 \<and>
   selectedArtworks (handleCheckboxChange (sample_artwork 8 ''8'') False
      (handleCheckboxChange (sample_artwork 8 ''8'') True sample_custom)) = selectedArtworks sample_custom \<and>
   jsset_has (selectedArtworkIds (handleCheckboxChange (sample_artwork 8 ''8'') False
      (handleCheckboxChange (sample_artwork 8 ''8'') True sample_custom))) 30"
proof -
  have fresh: "\<not> jsset_has (selectedArtworkIds sample_custom) (id_field (sample_artwork 8 ''8''))"
    and other: "30 \<noteq> id_field (sample_artwork 8 ''8'')" "jsset_has (selectedArtworkIds sample_custom) 30"
    by (simp_all add: has_selectedArtworkIds sample_custom_def sample_artwork_def)
  with toggle_on_off [of "sample_artwork 8 ''8''" sample_custom] show ?thesis
    by (simp add: sample_artwork_def)
qed

section \<open>Pagination: the claims\<close>

text \<open>
  Claim C8 (clamped offsets).  As stated, a requested offset is clamped to
  \<open>[0, max(0, pageCount-1) * pageSize]\<close>.  \<open>onPageChange\<close> stores what it is given: with 50
  records, a request for offset 1000 leaves the offset at 1000.
\<close>
theorem offset_not_clamped_counterexample:
  "\<not> offset_in_range sample_table
       (first (onPageChange \<lparr>ev_first = 1000, ev_rows = 12, ev_page = 83, ev_pageCount = 5\<rparr> sample_table))"
  by (simp add: offset_in_range_def onPageChange_def pageCount_def ceil_div_def API_PAGE_SIZE_def
        sample_table_def)

text \<open>
  Claim C8, amended.  \<open>onPageChange\<close> stores the requested offset unchanged.  Offsets
  stay in \<open>[0, max(0, pageCount-1) * pageSize]\<close> by what the paginator can request:
  from an offset in that range at the start of a page, every enabled button (Previous,
  Next, a page number) requests an offset in that range at the start of a page.
\<close>

theorem offset_as_requested:
  "first (onPageChange event s) = ev_first event \<and>
   (button_enabled s b \<and> offset_in_range s (first s) \<and> first s mod API_PAGE_SIZE = 0 \<longrightarrow>
      offset_in_range (button_click b s) (first (button_click b s)) \<and>
      first (button_click b s) mod API_PAGE_SIZE = 0)"
  using button_in_range [of s b] by (simp add: first_onPageChange)

theorem offset_as_requested_witness:
  "button_enabled sample_custom Next \<and> offset_in_range sample_custom (first sample_custom) \<and>
   first (button_click Next sample_custom) = 36 \<and>
   offset_in_range (button_click Next sample_custom) (first (button_click Next sample_custom))"
proof -
  have hyp: "button_enabled sample_custom Next \<and> offset_in_range sample_custom (first sample_custom) \<and>
      first sample_custom mod API_PAGE_SIZE = 0"
    by (simp add: offset_in_range_def pageCount_def currentPage_def ceil_div_def
          API_PAGE_SIZE_def sample_custom_def)
  have moved: "first (button_click Next sample_custom) = 36"
    by (simp add: onPageChange_def API_PAGE_SIZE_def sample_custom_def)
  from offset_as_requested [of "\<lparr>ev_first = 36, ev_rows = 12, ev_page = 3, ev_pageCount = 5\<rparr>"
      sample_custom Next] hyp
  have "offset_in_range (button_click Next sample_custom) (first (button_click Next sample_custom))"
    by blast
  with hyp moved show ?thesis by blast
qed

text \<open>
  Claim C10 (back to the first page).  For a count \<open>K > 0\<close>, both versions of the bulk
  selection leave the offset at 0 when they finish, whether the requests succeeded or one
  of them failed.
\<close>
theorem bulk_resets_offset:
  "tempRows s = Some K \<Longrightarrow> 0 < K \<Longrightarrow> tempRows c = Some K' \<Longrightarrow> 0 < K' \<Longrightarrow>
     first (applyRowsPerPageAndSelect latency fetch s) = 0 \<and>
     first (applyRowsPerPageAndSelect_seq fetch' c) = 0"
  by (simp add: applyRowsPerPageAndSelect_def applyRowsPerPageAndSelect_seq_def Let_def
       split: sum.split prod.split)

theorem bulk_resets_offset_witness:
  "first sample_table = 24 \<and> first sample_custom = 24 \<and>
   first (applyRowsPerPageAndSelect sample_latency failing_fetch sample_table) = 0 \<and>
   first (applyRowsPerPageAndSelect_seq (\<lambda>p. Inl NetworkError) sample_custom) = 0"
proof -
  have "tempRows sample_table = Some 40" "tempRows sample_custom = Some 20"
    "first sample_table = 24" "first sample_custom = 24"
    by (simp_all add: sample_table_def sample_custom_def)
  with bulk_resets_offset [of sample_table 40 sample_custom 20 sample_latency failing_fetch
      "\<lambda>p. Inl NetworkError"]
  show ?thesis by simp
qed

section \<open>Requests for a bulk selection do not overlap\<close>

lemma consistent_mounted: "consistent mounted"
  by (simp add: consistent_def mounted_def)

lemma consistent_ui:
  assumes "consistent ss" "bulkSelectLoading s' = bulkSelectLoading (ui ss)"
  shows "consistent (ss\<lparr>ui := s'\<rparr>)"
  using assms by (cases "last_writer ss") (simp_all add: consistent_def)

lemma consistent_apply_click: "consistent ss \<Longrightarrow> consistent (apply_click ss)"
  by (cases "last_writer ss")
     (auto simp: consistent_def apply_click_def apply_button_disabled_def Let_def)

lemma consistent_bulk_done:
  assumes "consistent ss"
  shows "consistent (bulk_done n latency fetch ss)"
proof (cases "map_of (in_flight ss) n")
  case None
  with assms show ?thesis by (simp add: bulk_done_def)
next
  case (Some r)
  from assms have "length (in_flight ss) \<le> 1" by (simp add: consistent_def)
  with Some obtain "in_flight ss = [(n, r)]"
    by (cases "in_flight ss") (auto split: if_splits)
  with assms Some show ?thesis
    by (cases "last_writer ss") (auto simp: consistent_def bulk_done_def bulk_finish_def Let_def split: sum.split)
qed

lemma consistent_step: "consistent ss \<Longrightarrow> consistent (step e ss)"
proof (cases e)
  case ApplyClick
  assume "consistent ss"
  with ApplyClick show ?thesis by (simp add: consistent_apply_click)
next
  case (BulkDone n latency fetch)
  assume "consistent ss"
  with BulkDone show ?thesis by (simp add: consistent_bulk_done)
qed (auto intro!: consistent_ui
      simp: fetchData_start_def fetchData_done_def onPageChange_def onDataTableSelectionChange_def
        toggleOverlay_def onValueChange_def selectAllCurrentPage_def deselectAllCurrentPage_def
        clearAllSelections_def Let_def split: sum.split)

lemma consistent_run: "consistent ss \<Longrightarrow> consistent (run es ss)"
  by (induction es arbitrary: ss) (simp_all add: consistent_step)

lemma click_then_done:
  assumes "\<not> apply_button_disabled (ui ss)" "in_flight ss = []"
  shows "ui (step (BulkDone (issued ss) latency fetch) (step ApplyClick ss))
           = applyRowsPerPageAndSelect latency fetch (ui ss)"
  using assms
  by (simp add: apply_click_def bulk_done_def bulk_finish_def applyRowsPerPageAndSelect_def Let_def)

text \<open>
  Claim C9 (a later request is never overwritten by an earlier one).  In every run of the
  table from its mounted state: while a request for a bulk selection is in flight the
  Apply button is disabled and a click on it changes nothing, so at most one request is
  in flight; the request in flight is the one that started last, and the selection was
  not written by any request that started after it; and when its responses are in and
  no page failed, the selection is its result.  So no request starts while another is in
  flight, and the completion of a request never replaces the selection of a request that
  started later.
\<close>
theorem only_latest_request_writes:
  assumes "ss = run es mounted"
  shows "(in_flight ss \<noteq> [] \<longrightarrow> step ApplyClick ss = ss) \<and>
         length (in_flight ss) \<le> 1 \<and>
         (\<forall>(n, r)\<in>set (in_flight ss).
            Suc n = issued ss \<and>
            (\<forall>m. last_writer ss = Some m \<longrightarrow> m < n) \<and>
            (\<forall>latency fetch ids.
               bulk_fetch_ids latency fetch (req_totalToSelect r) (req_totalRecords r) = Inr ids \<longrightarrow>
                 selectedIds (ui (step (BulkDone n latency fetch) ss)) = ids \<and>
                 last_writer (step (BulkDone n latency fetch) ss) = Some n \<and>
                 in_flight (step (BulkDone n latency fetch) ss) = []))"
proof -
  from assms have inv: "consistent ss"
    by (simp add: consistent_run consistent_mounted)
  then have busy: "in_flight ss \<noteq> [] \<longrightarrow> step ApplyClick ss = ss"
    by (auto simp: consistent_def apply_click_def apply_button_disabled_def)
  from inv have one: "length (in_flight ss) \<le> 1" by (simp add: consistent_def)
  have each: "Suc n = issued ss \<and>
            (\<forall>m. last_writer ss = Some m \<longrightarrow> m < n) \<and>
            (\<forall>latency fetch ids.
               bulk_fetch_ids latency fetch (req_totalToSelect r) (req_totalRecords r) = Inr ids \<longrightarrow>
                 selectedIds (ui (step (BulkDone n latency fetch) ss)) = ids \<and>
                 last_writer (step (BulkDone n latency fetch) ss) = Some n \<and>
                 in_flight (step (BulkDone n latency fetch) ss) = [])"
    if "(n, r) \<in> set (in_flight ss)" for n r
  proof -
    from that one have only: "in_flight ss = [(n, r)]"
      by (cases "in_flight ss") auto
    with inv have "Suc n = issued ss" "\<forall>m. last_writer ss = Some m \<longrightarrow> m < n"
      by (auto simp: consistent_def)
    moreover from only have "selectedIds (ui (step (BulkDone n latency fetch) ss)) = ids \<and>
                 last_writer (step (BulkDone n latency fetch) ss) = Some n \<and>
                 in_flight (step (BulkDone n latency fetch) ss) = []"
      if "bulk_fetch_ids latency fetch (req_totalToSelect r) (req_totalRecords r) = Inr ids"
      for latency fetch ids
      using that by (simp add: bulk_done_def bulk_finish_def)
    ultimately show ?thesis by blast
  qed
  from busy one each show ?thesis by blast
qed

lemma sample_run:
  "in_flight (run sample_events mounted) = [(0, \<lparr>req_totalToSelect = 1, req_totalRecords = 50\<rparr>)]
   \<and> issued (run sample_events mounted) = 1
   \<and> tempRows (ui (run sample_events mounted)) = Some 2"
  by (simp add: sample_events_def mounted_def apply_click_def apply_button_disabled_def
        fetchData_start_def fetchData_done_def toggleOverlay_def onValueChange_def)

theorem only_latest_request_writes_witness:
  "in_flight (run sample_events mounted) = [(0, \<lparr>req_totalToSelect = 1, req_totalRecords = 50\<rparr>)] \<and>
   step ApplyClick (run sample_events mounted) = run sample_events mounted \<and>
   issued (run sample_events mounted) = 1 \<and>
   selectedIds (ui (step (BulkDone 0 sample_latency sample_fetch) (run sample_events mounted))) = [100]"
proof -
  have "bulk_fetch_ids sample_latency sample_fetch 1 50 = Inr [100]"
    by code_simp
  with only_latest_request_writes [of "run sample_events mounted" sample_events] sample_run
  show ?thesis by simp
qed

end
